theory Spec2Isabelle
  imports Main "HOL-Library.AList" "HOL-Library.Sublist"
begin

section \<open>Values of a rule document\<close>

text \<open>
  The parsers of \<^verbatim>\<open>dataconfig/parsers.py\<close> work on the nested dictionary that a
  YAML or JSON reader returns.  A key is a string or an integer
  (\<^verbatim>\<open>_Key_t = Union[str, int]\<close>: mapping keys and sequence indices), a path is a tuple
  of keys.  A dictionary keeps the order of its items, so it is an association list;
  \<open>map_of\<close> reads it and \<open>AList.update\<close> assigns to a key (in place when the key is
  there, at the end otherwise), as Python does.

  The working copy of the document also holds what the parsers put into it: type
  objects and validator methods.  Floating point scalars are left out.
\<close>

datatype key = KStr string | KInt int

type_synonym path = "key list"

datatype base = ConfigIO

datatype val = VNone | VBool bool | VInt int | VStr string
  | VSeq "val list" | VMap "(key \<times> val) list"
  | VType pytype
  | VValidator (target: key) (factory: string) (options: val) (params: "(key \<times> val) list")
and pytype = Registered string
  | Parametrized pytype "val list"
  | Constructed pytype "(key \<times> val) list"
  | Dataconfig (type_name: string) (fields: "(key \<times> val \<times> val option) list")
      (namespace: "(key \<times> val) list") (bases: "base list")

text \<open>
  \<open>Registered n\<close> is the object \<^verbatim>\<open>getattr(NS.types, n)\<close>, \<open>Parametrized t xs\<close> is
  \<^verbatim>\<open>t[tuple(xs)]\<close> and \<open>Constructed t kw\<close> is \<^verbatim>\<open>t(**kw)\<close>: what the registered
  types do with their parameters is outside the repository, so the three forms are
  kept apart as constructors.  \<open>Dataconfig\<close> is a type made by
  \<^verbatim>\<open>make_dataconfig\<close>, \<open>VValidator\<close> a method made by \<^verbatim>\<open>make_validator\<close>.
\<close>

datatype error =
    UnknownName string  \<comment> \<open>AttributeError of \<^verbatim>\<open>getattr\<close> on a registry\<close>
  | AttributeError      \<comment> \<open>a method or attribute the value does not have\<close>
  | TypeError
  | KeyError
  | IndexError
  | PathAccessError     \<comment> \<open>glom could not follow a path\<close>
  | PathAssignError     \<comment> \<open>glom could not assign at a path\<close>
  | UnresolvedField     \<comment> \<open>a field whose type is not a type object\<close>

datatype warning = AmbiguousOption val

definition type_spec :: "string list" where
  "type_spec = [''type'', ''opts'', ''validator'', ''validator_opts'', ''validator_params'',
     ''root_validator'', ''default'', ''id'', ''doc'']"

definition sbind :: "error + 'a \<Rightarrow> ('a \<Rightarrow> error + 'b) \<Rightarrow> error + 'b" where
  "sbind m f = (case m of Inl e \<Rightarrow> Inl e | Inr x \<Rightarrow> f x)"

subsection \<open>Python's operations on the values\<close>

text \<open>Truth value testing (\<^verbatim>\<open>if opts\<close>, \<^verbatim>\<open>opts and ...\<close>).\<close>

fun truthy :: "val \<Rightarrow> bool" where
  "truthy VNone = False"
| "truthy (VBool b) = b"
| "truthy (VInt n) = (n \<noteq> 0)"
| "truthy (VStr s) = (s \<noteq> [])"
| "truthy (VSeq xs) = (xs \<noteq> [])"
| "truthy (VMap kvs) = (kvs \<noteq> [])"
| "truthy (VType t) = True"
| "truthy (VValidator k f opts ps) = True"

text \<open>\<^verbatim>\<open>isinstance(v, Sequence)\<close>: lists, and strings too.\<close>

fun is_sequence :: "val \<Rightarrow> bool" where
  "is_sequence (VSeq xs) = True"
| "is_sequence (VStr s) = True"
| "is_sequence v = False"

text \<open>\<^verbatim>\<open>isinstance(v, dict)\<close>.\<close>

fun is_dict :: "val \<Rightarrow> bool" where
  "is_dict (VMap kvs) = True"
| "is_dict v = False"

text \<open>\<^verbatim>\<open>tuple(v)\<close> of a sequence: the items of a list, the characters of a string.\<close>

fun tuple :: "val \<Rightarrow> val list" where
  "tuple (VSeq xs) = xs"
| "tuple (VStr s) = map (\<lambda>c. VStr [c]) s"
| "tuple v = []"

fun starts_with :: "string \<Rightarrow> string \<Rightarrow> bool" where
  "starts_with [] ys = True"
| "starts_with (x # xs) [] = False"
| "starts_with (x # xs) (y # ys) = (x = y \<and> starts_with xs ys)"

fun substring :: "string \<Rightarrow> string \<Rightarrow> bool" where
  "substring xs [] = (xs = [])"
| "substring xs (y # ys) = (starts_with xs (y # ys) \<or> substring xs ys)"

text \<open>
  \<^verbatim>\<open>name in v\<close> for a string \<open>name\<close>: a key of a dictionary, an item of a list, a
  substring of a string; any other value is not iterable.
\<close>

fun contains :: "string \<Rightarrow> val \<Rightarrow> error + bool" where
  "contains name (VMap kvs) = Inr (map_of kvs (KStr name) \<noteq> None)"
| "contains name (VSeq xs) = Inr (VStr name \<in> set xs)"
| "contains name (VStr s) = Inr (substring name s)"
| "contains name v = Inl TypeError"

text \<open>\<^verbatim>\<open>v.get(name, default)\<close>: only a dictionary has the method.\<close>

fun dict_get :: "val \<Rightarrow> string \<Rightarrow> val \<Rightarrow> error + val" where
  "dict_get (VMap kvs) name d = Inr (case map_of kvs (KStr name) of None \<Rightarrow> d | Some x \<Rightarrow> x)"
| "dict_get v name d = Inl AttributeError"

text \<open>\<^verbatim>\<open>v[name]\<close> for a string \<open>name\<close>.\<close>

fun subscript :: "val \<Rightarrow> string \<Rightarrow> error + val" where
  "subscript (VMap kvs) name = (case map_of kvs (KStr name) of None \<Rightarrow> Inl KeyError | Some x \<Rightarrow> Inr x)"
| "subscript v name = Inl TypeError"

text \<open>\<^verbatim>\<open>v[name] = x\<close> for a string \<open>name\<close>.\<close>

fun set_item :: "val \<Rightarrow> string \<Rightarrow> val \<Rightarrow> error + val" where
  "set_item (VMap kvs) name x = Inr (VMap (AList.update (KStr name) x kvs))"
| "set_item v name x = Inl TypeError"

text \<open>
  \<^verbatim>\<open>getattr(registry, name)\<close>: the registries \<^verbatim>\<open>NS.types\<close> and
  \<^verbatim>\<open>NS.validators\<close> are given by the names they hold.
\<close>

fun getattr :: "string list \<Rightarrow> val \<Rightarrow> error + string" where
  "getattr registry (VStr n) = (if n \<in> set registry then Inr n else Inl (UnknownName n))"
| "getattr registry v = Inl TypeError"

text \<open>\<^verbatim>\<open>**kw\<close> in a call: a mapping whose keys are strings.\<close>

fun str_keys :: "(key \<times> val) list \<Rightarrow> bool" where
  "str_keys [] = True"
| "str_keys ((KStr s, v) # kvs) = str_keys kvs"
| "str_keys ((KInt i, v) # kvs) = False"

fun kwargs :: "val \<Rightarrow> error + (key \<times> val) list" where
  "kwargs (VMap kvs) = (if str_keys kvs then Inr kvs else Inl TypeError)"
| "kwargs v = Inl TypeError"

section \<open>The leaf interpreter\<close>

text \<open>
  \<^verbatim>\<open>_type(value)\<close>.  The result carries the warnings issued.
  \<^verbatim>\<open>
  opts = value.get(_type_spec[1], None)
  if opts and isinstance(opts, Sequence):
      config_t = getattr(NS.types, value[type_key])[tuple(opts)]
  elif opts and isinstance(opts, dict):
      config_t = getattr(NS.types, value[type_key])(**opts)
  else:
      config_t = getattr(NS.types, value[type_key])
      if opts:
          warn(f"ambiguous option ignored: {opts}", category=UserWarning)
  return config_t
  \<close>
\<close>

definition lookup_type :: "string list \<Rightarrow> val \<Rightarrow> error + pytype" where
  "lookup_type types value =
     sbind (subscript value ''type'') (\<lambda>n.
     sbind (getattr types n) (\<lambda>name. Inr (Registered name)))"

definition type_of_spec :: "string list \<Rightarrow> val \<Rightarrow> error + (pytype \<times> warning list)" where
  "type_of_spec types value =
     sbind (dict_get value ''opts'' VNone) (\<lambda>opts.
       if truthy opts \<and> is_sequence opts then
         sbind (lookup_type types value) (\<lambda>t. Inr (Parametrized t (tuple opts), []))
       else if truthy opts \<and> is_dict opts then
         sbind (lookup_type types value) (\<lambda>t.
         sbind (kwargs opts) (\<lambda>kw. Inr (Constructed t kw, [])))
       else
         sbind (lookup_type types value) (\<lambda>t.
           Inr (t, if truthy opts then [AmbiguousOption opts] else [])))"

text \<open>
  Modelled from the spec: \<^verbatim>\<open>make_validator\<close> of \<^verbatim>\<open>dataconfig/factory.py\<close> is not
  among the sources.  The spec's validator binding is (target key, factory name,
  options, params), installed under its declared name; the call
  \<^verbatim>\<open>make_validator(func, key, opts=opts, **params)\<close> needs \<open>params\<close> to be a mapping
  with string keys that does not pass \<open>opts\<close> a second time.
\<close>

definition make_validator :: "string \<Rightarrow> key \<Rightarrow> val \<Rightarrow> val \<Rightarrow> error + val" where
  "make_validator func k opts ps =
     sbind (kwargs ps) (\<lambda>kw.
       if map_of kw (KStr ''opts'') \<noteq> None then Inl TypeError
       else Inr (VMap [(KStr func, VValidator k func opts kw)]))"

text \<open>
  \<^verbatim>\<open>_validator(key, value)\<close>.
  \<^verbatim>\<open>
  func = getattr(NS.validators, value[val_key])
  key = "" if value.get(is_root, False) else key
  opts = value.get(opts_key, {})
  params = value.get(params_key, {})
  return make_validator(func, key, opts=opts, **params)
  \<close>
\<close>

definition validator_of_spec :: "string list \<Rightarrow> key \<Rightarrow> val \<Rightarrow> error + val" where
  "validator_of_spec validators k value =
     sbind (subscript value ''validator'') (\<lambda>n.
     sbind (getattr validators n) (\<lambda>func.
     sbind (dict_get value ''root_validator'' (VBool False)) (\<lambda>is_root.
     sbind (dict_get value ''validator_opts'' (VMap [])) (\<lambda>opts.
     sbind (dict_get value ''validator_params'' (VMap [])) (\<lambda>ps.
       make_validator func (if truthy is_root then KStr [] else k) opts ps)))))"

text \<open>
  \<^verbatim>\<open>_str_to_spec(key, value)\<close>: the dictionary is updated in place and returned.
  \<^verbatim>\<open>
  if type_key in value:
      value[type_key] = _type(value)
  if validator_key in value:
      value[validator_key] = _validator(key, value)
  return value
  \<close>
\<close>

definition str_to_spec ::
  "string list \<Rightarrow> string list \<Rightarrow> key \<Rightarrow> val \<Rightarrow> error + (val \<times> warning list)" where
  "str_to_spec types validators k value =
     sbind (contains ''type'' value) (\<lambda>has_type.
     sbind (if has_type then
              sbind (type_of_spec types value) (\<lambda>(t, ws).
              sbind (set_item value ''type'' (VType t)) (\<lambda>value'. Inr (value', ws)))
            else Inr (value, [])) (\<lambda>(value1, ws).
     sbind (contains ''validator'' value1) (\<lambda>has_validator.
       if has_validator then
         sbind (validator_of_spec validators k value1) (\<lambda>m.
         sbind (set_item value1 ''validator'' m) (\<lambda>value2. Inr (value2, ws)))
       else Inr (value1, ws))))"

section \<open>Nodes and leaves\<close>

text \<open>
  \<^verbatim>\<open>_is_node(path, key, value)\<close>; the key is \<open>None\<close> for the entry \<^verbatim>\<open>remap\<close> starts
  with.
  \<^verbatim>\<open>
  if key is None:
      return False
  full_path = path + (key,)
  return all(type_key not in full_path for type_key in _type_spec)
  \<close>
\<close>

fun is_node :: "path \<Rightarrow> key option \<Rightarrow> val \<Rightarrow> bool" where
  "is_node path None value = False"
| "is_node path (Some key) value =
     list_all (\<lambda>type_key. KStr type_key \<notin> set (path @ [key])) type_spec"

text \<open>
  \<^verbatim>\<open>boltons.iterutils.remap\<close> walks the document depth first, in the order of the
  items, and calls \<^verbatim>\<open>enter(path, key, value)\<close> once for the root (with the empty path
  and the key \<open>None\<close>) and once for every item of every dictionary and list
  below it, where \<open>path\<close> is the path of the container and \<open>key\<close> the key or index
  of the item; strings are not walked into.  \<open>enters\<close> lists these calls.  The
  document is a tree: no object is shared between two places.
\<close>

fun child_path :: "path \<Rightarrow> key option \<Rightarrow> path" where
  "child_path path None = path"
| "child_path path (Some k) = path @ [k]"

fun enters :: "path \<Rightarrow> key option \<Rightarrow> val \<Rightarrow> (path \<times> key option \<times> val) list"
and enters_items :: "path \<Rightarrow> (key \<times> val) list \<Rightarrow> (path \<times> key option \<times> val) list"
and enters_seq :: "path \<Rightarrow> nat \<Rightarrow> val list \<Rightarrow> (path \<times> key option \<times> val) list"
where
  "enters path key (VMap kvs) = (path, key, VMap kvs) # enters_items (child_path path key) kvs"
| "enters path key (VSeq xs) = (path, key, VSeq xs) # enters_seq (child_path path key) 0 xs"
| "enters path key v = [(path, key, v)]"
| "enters_items path [] = []"
| "enters_items path ((k, c) # kvs) = enters path (Some k) c @ enters_items path kvs"
| "enters_seq path i [] = []"
| "enters_seq path i (c # xs) = enters path (Some (KInt (int i))) c @ enters_seq path (Suc i) xs"

text \<open>
  \<^verbatim>\<open>research(root, query)\<close> returns \<^verbatim>\<open>(path + (key,), value)\<close> for every entry the
  query accepts.  (For the root's entry Python's tuple would end in \<open>None\<close>; here it
  is the empty path.)
\<close>

definition research :: "val \<Rightarrow> (path \<Rightarrow> key option \<Rightarrow> val \<Rightarrow> bool) \<Rightarrow> (path \<times> val) list" where
  "research root query =
     map (\<lambda>(p, k, v). (child_path p k, v)) (filter (\<lambda>(p, k, v). query p k v) (enters [] None root))"

text \<open>
  \<^verbatim>\<open>_nodes(conf) = {path for path, _ in research(conf, query=_is_node)}\<close>.  A set of
  paths is a list without repetitions.
\<close>

definition nodes :: "val \<Rightarrow> path list" where
  "nodes conf = remdups (map fst (research conf is_node))"

text \<open>
  \<^verbatim>\<open>_is_leaf(path, paths)\<close>:
  \<^verbatim>\<open>not any(set(path).issubset(q) for q in paths if path != q)\<close>,
  and \<^verbatim>\<open>_leaves(paths) = {p for p in paths if _is_leaf(p, paths)}\<close>.
\<close>

definition is_leaf :: "path \<Rightarrow> path list \<Rightarrow> bool" where
  "is_leaf path paths = (\<not> list_ex (\<lambda>q. path \<noteq> q \<and> set path \<subseteq> set q) paths)"

definition leaves :: "path list \<Rightarrow> path list" where
  "leaves paths = filter (\<lambda>p. is_leaf p paths) paths"

section \<open>Paths as glom reads them\<close>

text \<open>\<^verbatim>\<open>str(key)\<close>: a string is itself, an integer is written in decimal.\<close>

definition digits :: string where
  "digits = ''0123456789''"

function str_nat :: "nat \<Rightarrow> string" where
  "str_nat n = (if n < 10 then [digits ! n] else str_nat (n div 10) @ [digits ! (n mod 10)])"
  by pat_completeness auto
termination
  by (relation "measure id") auto

declare str_nat.simps [simp del]

definition str_int :: "int \<Rightarrow> string" where
  "str_int i = (if i < 0 then CHR ''-'' # str_nat (nat (- i)) else str_nat (nat i))"

fun str_key :: "key \<Rightarrow> string" where
  "str_key (KStr s) = s"
| "str_key (KInt i) = str_int i"

text \<open>\<^verbatim>\<open>".".join(map(str, path))\<close>.\<close>

fun join_dots :: "string list \<Rightarrow> string" where
  "join_dots [] = []"
| "join_dots [s] = s"
| "join_dots (s # t # ss) = s @ CHR ''.'' # join_dots (t # ss)"

definition path_to_glom_spec :: "path \<Rightarrow> string" where
  "path_to_glom_spec path = join_dots (map str_key path)"

text \<open>
  glom reads a string spec as a path: the text is cut at every dot
  (\<^verbatim>\<open>Path.from_text\<close>, \<^verbatim>\<open>text.split('.')\<close>).
\<close>

fun split_dots :: "string \<Rightarrow> string list" where
  "split_dots [] = [[]]"
| "split_dots (c # cs) =
     (if c = CHR ''.'' then [] # split_dots cs
      else (case split_dots cs of [] \<Rightarrow> [[c]] | s # ss \<Rightarrow> (c # s) # ss))"

text \<open>
  \<^verbatim>\<open>int(segment)\<close>, which glom applies to a segment that addresses a list: an
  optional sign and decimal digits (blanks around the number and underscores in it,
  which Python also reads, are left out).
\<close>

definition digit_val :: "char \<Rightarrow> nat option" where
  "digit_val c = map_of (zip digits [0..<10]) c"

fun nat_of_str :: "nat \<Rightarrow> string \<Rightarrow> nat option" where
  "nat_of_str acc [] = Some acc"
| "nat_of_str acc (c # cs) =
     (case digit_val c of None \<Rightarrow> None | Some d \<Rightarrow> nat_of_str (10 * acc + d) cs)"

fun int_of_str :: "string \<Rightarrow> int option" where
  "int_of_str [] = None"
| "int_of_str (c # cs) =
     (if c = CHR ''-'' then (if cs = [] then None else map_option (\<lambda>n. - int n) (nat_of_str 0 cs))
      else if c = CHR ''+'' then (if cs = [] then None else map_option int (nat_of_str 0 cs))
      else map_option int (nat_of_str 0 (c # cs)))"

text \<open>The position \<^verbatim>\<open>xs[i]\<close> addresses: a negative index counts from the end.\<close>

definition seq_index :: "val list \<Rightarrow> int \<Rightarrow> nat option" where
  "seq_index xs i =
     (let n = int (length xs) in
      if 0 \<le> i \<and> i < n then Some (nat i)
      else if - n \<le> i \<and> i < 0 then Some (nat (n + i))
      else None)"

text \<open>
  One step of a glom path: \<^verbatim>\<open>target[segment]\<close> in a dictionary,
  \<^verbatim>\<open>target[int(segment)]\<close> in a list; whatever goes wrong is a
  \<^verbatim>\<open>PathAccessError\<close>.  On any other object glom uses \<^verbatim>\<open>getattr\<close>; the attributes
  of scalars, type objects and methods are not modelled, so a path into them fails.
\<close>

fun glom_get1 :: "val \<Rightarrow> string \<Rightarrow> error + val" where
  "glom_get1 (VMap kvs) seg =
     (case map_of kvs (KStr seg) of None \<Rightarrow> Inl PathAccessError | Some x \<Rightarrow> Inr x)"
| "glom_get1 (VSeq xs) seg =
     (case int_of_str seg of
        None \<Rightarrow> Inl PathAccessError
      | Some i \<Rightarrow> (case seq_index xs i of None \<Rightarrow> Inl PathAccessError | Some j \<Rightarrow> Inr (xs ! j)))"
| "glom_get1 v seg = Inl PathAccessError"

fun glom_get :: "val \<Rightarrow> string list \<Rightarrow> error + val" where
  "glom_get v [] = Inr v"
| "glom_get v (seg # segs) = sbind (glom_get1 v seg) (\<lambda>c. glom_get c segs)"

text \<open>
  \<^verbatim>\<open>Assign(path, val)\<close> follows the path but for its last segment and assigns there:
  \<^verbatim>\<open>dest[segment] = val\<close> in a dictionary, \<^verbatim>\<open>dest[int(segment)] = val\<close> in a list.
  The document being a tree, the assignment in place is the update along the path.
\<close>

fun glom_set1 :: "val \<Rightarrow> string \<Rightarrow> val \<Rightarrow> error + val" where
  "glom_set1 (VMap kvs) seg x = Inr (VMap (AList.update (KStr seg) x kvs))"
| "glom_set1 (VSeq xs) seg x =
     (case int_of_str seg of
        None \<Rightarrow> Inl PathAssignError
      | Some i \<Rightarrow> (case seq_index xs i of None \<Rightarrow> Inl PathAssignError | Some j \<Rightarrow> Inr (VSeq (xs[j := x]))))"
| "glom_set1 v seg x = Inl PathAssignError"

fun glom_assign :: "val \<Rightarrow> string list \<Rightarrow> val \<Rightarrow> error + val" where
  "glom_assign v [] x = Inl PathAssignError"
| "glom_assign v [seg] x = glom_set1 v seg x"
| "glom_assign v (seg # segs) x =
     sbind (glom_get1 v seg) (\<lambda>c.
     sbind (glom_assign c segs x) (\<lambda>c'. glom_set1 v seg c'))"


section \<open>The type synthesizer\<close>

text \<open>The types of all fields are type objects.\<close>

fun field_types :: "(key \<times> val \<times> val option) list \<Rightarrow> bool" where
  "field_types [] = True"
| "field_types ((k, VType t, d) # fs) = field_types fs"
| "field_types ((k, v, d) # fs) = False"

text \<open>
  Modelled from the spec: \<^verbatim>\<open>make_dataconfig\<close> of \<^verbatim>\<open>dataconfig/factory.py\<close> is not
  among the sources.  By the spec a composite type is an ordered list of field specs,
  the installed validators and the base capabilities, and a field whose type is
  not resolved must fail fast.
\<close>

definition make_dataconfig ::
  "string \<Rightarrow> (key \<times> val \<times> val option) list \<Rightarrow> (key \<times> val) list \<Rightarrow> base list \<Rightarrow> error + pytype" where
  "make_dataconfig name fs ns bs =
     (if field_types fs then Inr (Dataconfig name fs ns bs) else Inl UnresolvedField)"

text \<open>\<^verbatim>\<open>value.items()\<close>: only a dictionary has the method.\<close>

fun dict_items :: "val \<Rightarrow> error + (key \<times> val) list" where
  "dict_items (VMap kvs) = Inr kvs"
| "dict_items v = Inl AttributeError"

text \<open>
  The two list comprehensions of \<^verbatim>\<open>_spec_to_type\<close>:
  \<^verbatim>\<open>[(k, v) for k, v in value.items() if default not in v]\<close> and
  \<^verbatim>\<open>[(k, v) for k, v in value.items() if default in v]\<close>.  The test raises on an
  item that is not iterable.
\<close>

fun items_where :: "bool \<Rightarrow> (key \<times> val) list \<Rightarrow> error + (key \<times> val) list" where
  "items_where b [] = Inr []"
| "items_where b ((k, v) # kvs) =
     sbind (contains ''default'' v) (\<lambda>has.
     sbind (items_where b kvs) (\<lambda>rest. Inr (if has = b then (k, v) # rest else rest)))"

text \<open>
  The glom spec applied to every item \<open>(k, v)\<close>:
  \<^verbatim>\<open>({"k": "0", "v": "1.type", "d": Coalesce("1.default", default=SKIP)}, T.values(), tuple)\<close>;
  the default is left out of the tuple when the path to it fails.
\<close>

definition field_of_item :: "key \<times> val \<Rightarrow> error + (key \<times> val \<times> val option)" where
  "field_of_item kv =
     sbind (glom_get (snd kv) [''type'']) (\<lambda>t.
       Inr (fst kv, t, (case glom_get (snd kv) [''default''] of Inl e \<Rightarrow> None | Inr d \<Rightarrow> Some d)))"

fun map_result :: "('a \<Rightarrow> error + 'b) \<Rightarrow> 'a list \<Rightarrow> error + 'b list" where
  "map_result f [] = Inr []"
| "map_result f (x # xs) = sbind (f x) (\<lambda>y. sbind (map_result f xs) (\<lambda>ys. Inr (y # ys)))"

text \<open>
  The namespace: \<^verbatim>\<open>(Coalesce("validator", default_factory=dict), T.items())\<close> for
  every value, chained and made a dictionary (a later item with the same name
  replaces the earlier one).
\<close>

definition validator_items :: "val \<Rightarrow> error + (key \<times> val) list" where
  "validator_items v =
     (case glom_get v [''validator''] of
        Inl e \<Rightarrow> Inr []
      | Inr (VMap kvs) \<Rightarrow> Inr kvs
      | Inr m \<Rightarrow> Inl PathAccessError)"

definition dict_of :: "(key \<times> val) list \<Rightarrow> (key \<times> val) list" where
  "dict_of kvs = foldl (\<lambda>d (k, v). AList.update k v d) [] kvs"

text \<open>
  \<^verbatim>\<open>_spec_to_type(key, value, bases)\<close>.
  \<^verbatim>\<open>
  fields = glom([(k, v) for k, v in value.items() if default not in v]
                + [(k, v) for k, v in value.items() if default in v], [...])
  ns = dict(chain(*glom(value.values(), [...])))
  return make_dataconfig(f"{key}_t", fields, namespace=ns, bases=bases)
  \<close>
\<close>

definition spec_to_type :: "key \<Rightarrow> val \<Rightarrow> base list \<Rightarrow> error + pytype" where
  "spec_to_type k value bs =
     sbind (dict_items value) (\<lambda>items.
     sbind (items_where False items) (\<lambda>required.
     sbind (items_where True items) (\<lambda>defaulted.
     sbind (map_result field_of_item (required @ defaulted)) (\<lambda>fs.
     sbind (map_result validator_items (map snd items)) (\<lambda>vs.
       make_dataconfig (str_key k @ ''_t'') fs (dict_of (concat vs)) bs)))))"

section \<open>The branch interpreter\<close>

text \<open>
  \<^verbatim>\<open>_nested_type(key, value)\<close>:
  \<^verbatim>\<open>
  return {
      "type": _spec_to_type(key, value),
      "validator": _str_to_spec(key, value),
  }
  \<close>
\<close>

definition nested_type ::
  "string list \<Rightarrow> string list \<Rightarrow> key \<Rightarrow> val \<Rightarrow> error + (val \<times> warning list)" where
  "nested_type types validators k value =
     sbind (spec_to_type k value []) (\<lambda>t.
     sbind (str_to_spec types validators k value) (\<lambda>(v, ws).
       Inr (VMap [(KStr ''type'', VType t), (KStr ''validator'', v)], ws)))"

section \<open>The fold driver\<close>

text \<open>
  \<^verbatim>\<open>_update_inplace(func)(_conf, path)\<close>: the value at the path is replaced by what
  \<open>func\<close> makes of it and of the last key of the path.  The state is the working
  copy and the warnings issued so far.
  \<^verbatim>\<open>
  glom_spec = _path_to_glom_spec(path)
  _config_t = Spec(Invoke(func).constants(path[-1]).specs(glom_spec))
  return glom(_conf, Assign(glom_spec, _config_t))
  \<close>
\<close>

definition update_inplace ::
  "(key \<Rightarrow> val \<Rightarrow> error + (val \<times> warning list)) \<Rightarrow> val \<times> warning list \<Rightarrow> path \<Rightarrow>
   error + (val \<times> warning list)" where
  "update_inplace func st path =
     (if path = [] then Inl IndexError
      else
        let glom_spec = split_dots (path_to_glom_spec path) in
        sbind (glom_get (fst st) glom_spec) (\<lambda>v.
        sbind (func (last path) v) (\<lambda>(v', ws).
        sbind (glom_assign (fst st) glom_spec v') (\<lambda>conf'. Inr (conf', snd st @ ws)))))"

text \<open>\<^verbatim>\<open>functools.reduce(f, xs, s)\<close>, where an exception of \<open>f\<close> ends the fold.\<close>

fun reduce :: "('s \<Rightarrow> 'a \<Rightarrow> error + 's) \<Rightarrow> 'a list \<Rightarrow> 's \<Rightarrow> error + 's" where
  "reduce f [] s = Inr s"
| "reduce f (x # xs) s = sbind (f s x) (reduce f xs)"

text \<open>
  The next value of \<open>branches\<close>:
  \<^verbatim>\<open>{path[:-1] for path in branches if path[:-1]}\<close>.
\<close>

definition parents :: "path list \<Rightarrow> path list" where
  "parents branches = remdups (filter (\<lambda>p. p \<noteq> []) (map butlast branches))"

lemma sbind_cong [fundef_cong]:
  "m = m' \<Longrightarrow> (\<And>x. m' = Inr x \<Longrightarrow> f x = f' x) \<Longrightarrow> sbind m f = sbind m' f'"
  by (cases m') (simp_all add: sbind_def)

lemma parents_smaller:
  "branches \<noteq> [] \<Longrightarrow>
   sum_list (map (\<lambda>p. Suc (length p)) (parents branches)) < sum_list (map (\<lambda>p. Suc (length p)) branches)"
proof -
  have le: "sum_list (map (\<lambda>p. Suc (length p)) (remdups xs)) \<le> sum_list (map (\<lambda>p. Suc (length p)) xs)"
    for xs :: "path list"
    by (induction xs) auto
  have le2: "sum_list (map (\<lambda>p. Suc (length p)) (filter (\<lambda>p. p \<noteq> []) (map butlast bs)))
        \<le> sum_list (map (\<lambda>p. Suc (length p)) bs)" for bs :: "path list"
    by (induction bs) auto
  assume "branches \<noteq> []"
  then obtain b bs where b: "branches = b # bs"
    by (cases branches) auto
  have "sum_list (map (\<lambda>p. Suc (length p)) (filter (\<lambda>p. p \<noteq> []) (map butlast [b]))) < Suc (length b)"
    by (cases b) auto
  with le2[of bs] b
  have "sum_list (map (\<lambda>p. Suc (length p)) (filter (\<lambda>p. p \<noteq> []) (map butlast branches)))
        < sum_list (map (\<lambda>p. Suc (length p)) branches)"
    by auto
  with le[of "filter (\<lambda>p. p \<noteq> []) (map butlast branches)"]
  show ?thesis by (simp add: parents_def)
qed

text \<open>
  The loop of \<^verbatim>\<open>get_config_t\<close>.  Python leaves open in which order a set is gone
  through: \<open>order\<close> gives the order for each set.
  \<^verbatim>\<open>
  while branches:
      _conf = reduce(_update_inplace(_nested_type), branches, _conf)
      branches = {path[:-1] for path in branches if path[:-1]}
  \<close>
\<close>

function walk_up ::
  "(path list \<Rightarrow> path list) \<Rightarrow> string list \<Rightarrow> string list \<Rightarrow> val \<times> warning list \<Rightarrow> path list \<Rightarrow>
   error + (val \<times> warning list)" where
  "walk_up order types validators st branches =
     (if branches = [] then Inr st
      else sbind (reduce (update_inplace (nested_type types validators)) (order branches) st)
             (\<lambda>st'. walk_up order types validators st' (parents branches)))"
  by pat_completeness auto
termination
  by (relation "measure (\<lambda>(order, types, validators, st, branches).
        sum_list (map (\<lambda>p. Suc (length p)) branches))")
    (auto simp: parents_smaller)

declare walk_up.simps [simp del]

text \<open>
  \<^verbatim>\<open>get_config_t(conf)\<close>.
  \<^verbatim>\<open>
  paths = _nodes(conf)
  leaves = _leaves(paths)
  _conf = reduce(_update_inplace(_str_to_spec), leaves, deepcopy(conf))
  branches: Set[_Path_t] = _leaves(paths - leaves)
  while branches: ...
  return _spec_to_type("config", _conf, bases=(_ConfigIO,))
  \<close>
\<close>

definition set_minus :: "path list \<Rightarrow> path list \<Rightarrow> path list" where
  "set_minus xs ys = filter (\<lambda>p. p \<notin> set ys) xs"

definition get_config_t ::
  "(path list \<Rightarrow> path list) \<Rightarrow> string list \<Rightarrow> string list \<Rightarrow> val \<Rightarrow> error + (pytype \<times> warning list)" where
  "get_config_t order types validators conf =
     (let paths = nodes conf; lvs = leaves paths in
      sbind (reduce (update_inplace (str_to_spec types validators)) (order lvs) (conf, [])) (\<lambda>st.
      sbind (walk_up order types validators st (leaves (set_minus paths lvs))) (\<lambda>(conf', ws).
      sbind (spec_to_type (KStr ''config'') conf' [ConfigIO]) (\<lambda>t. Inr (t, ws)))))"


section \<open>Notions the properties are stated with\<close>

text \<open>
  The places of a document: the path of every key of every dictionary and of every
  index of every list, in the order of the walk.
\<close>

fun positions :: "val \<Rightarrow> path list"
and positions_items :: "(key \<times> val) list \<Rightarrow> path list"
and positions_seq :: "nat \<Rightarrow> val list \<Rightarrow> path list"
where
  "positions (VMap kvs) = positions_items kvs"
| "positions (VSeq xs) = positions_seq 0 xs"
| "positions v = []"
| "positions_items [] = []"
| "positions_items ((k, c) # kvs) = [k] # map ((#) k) (positions c) @ positions_items kvs"
| "positions_seq i [] = []"
| "positions_seq i (c # xs) =
     [KInt (int i)] # map ((#) (KInt (int i))) (positions c) @ positions_seq (Suc i) xs"

text \<open>The rule without its \<open>opts\<close> key.\<close>

fun drop_opts :: "val \<Rightarrow> val" where
  "drop_opts (VMap kvs) = VMap (AList.delete (KStr ''opts'') kvs)"
| "drop_opts v = v"

text \<open>
  The target key the spec gives a validator: the empty string when the rule's
  \<open>root_validator\<close> is truthy, the key of the field otherwise.
\<close>

definition effective_target :: "key \<Rightarrow> (key \<times> val) list \<Rightarrow> key" where
  "effective_target k kvs =
     (case map_of kvs (KStr ''root_validator'') of
        None \<Rightarrow> k
      | Some r \<Rightarrow> if truthy r then KStr [] else k)"







text \<open>
  An item \<open>(k, v)\<close> of a field mapping has a default when \<^verbatim>\<open>"default" in v\<close>.
\<close>

definition has_default :: "key \<times> val \<Rightarrow> bool" where
  "has_default kv = (contains ''default'' (snd kv) = Inr True)"

text \<open>
  A resolved child of a branch: a dictionary whose \<open>type\<close> is a type object and whose
  \<open>validator\<close>, when it has one, is a dictionary.
\<close>

definition resolved_field :: "key \<times> val \<Rightarrow> bool" where
  "resolved_field kv =
     (case snd kv of
        VMap m \<Rightarrow>
          (case map_of m (KStr ''type'') of Some (VType t) \<Rightarrow> True | _ \<Rightarrow> False)
          \<and> (case map_of m (KStr ''validator'') of None \<Rightarrow> True | Some (VMap ns) \<Rightarrow> True | _ \<Rightarrow> False)
      | _ \<Rightarrow> False)"

text \<open>
  No composite type inside a value has a base: every \<^verbatim>\<open>make_dataconfig\<close> type in it,
  at any depth (in the fields and their defaults, in the namespaces, in the options
  and parameters of types and validators), was made with \<open>bases = ()\<close>.
\<close>

function (sequential) unbased :: "val \<Rightarrow> bool"
and unbased_type :: "pytype \<Rightarrow> bool"
and unbased_list :: "val list \<Rightarrow> bool"
and unbased_items :: "(key \<times> val) list \<Rightarrow> bool"
and unbased_fields :: "(key \<times> val \<times> val option) list \<Rightarrow> bool"
where
  "unbased (VSeq xs) = unbased_list xs"
| "unbased (VMap kvs) = unbased_items kvs"
| "unbased (VType t) = unbased_type t"
| "unbased (VValidator k f opts ps) = (unbased opts \<and> unbased_items ps)"
| "unbased v = True"
| "unbased_type (Registered n) = True"
| "unbased_type (Parametrized t xs) = (unbased_type t \<and> unbased_list xs)"
| "unbased_type (Constructed t kw) = (unbased_type t \<and> unbased_items kw)"
| "unbased_type (Dataconfig n fs ns bs) = (bs = [] \<and> unbased_fields fs \<and> unbased_items ns)"
| "unbased_list [] = True"
| "unbased_list (x # xs) = (unbased x \<and> unbased_list xs)"
| "unbased_items [] = True"
| "unbased_items ((k, v) # kvs) = (unbased v \<and> unbased_items kvs)"
| "unbased_fields [] = True"
| "unbased_fields ((k, v, None) # fs) = (unbased v \<and> unbased_fields fs)"
| "unbased_fields ((k, v, Some d) # fs) = (unbased v \<and> unbased d \<and> unbased_fields fs)"
  by pat_completeness auto
termination
  by (relation "measure (case_sum (case_sum size size) (case_sum (size_list size)
        (case_sum (size_list (size_prod (\<lambda>k. 0) size))
          (size_list (size_prod (\<lambda>k. 0) (size_prod size (size_option size)))))))")
    auto


section \<open>Properties of the leaf interpreter\<close>

lemma sbind_Inr [simp]: "sbind (Inr x) f = f x"
  by (simp add: sbind_def)

lemma sbind_Inl [simp]: "sbind (Inl e) f = Inl e"
  by (simp add: sbind_def)

lemma lookup_type_delete_opts:
  "lookup_type types (VMap (AList.delete (KStr ''opts'') kvs)) = lookup_type types (VMap kvs)"
  by (simp add: lookup_type_def)

lemma type_of_spec_falsy:
  assumes "map_of kvs (KStr ''opts'') = Some opts" and "\<not> truthy opts"
  shows "type_of_spec types (VMap kvs) = sbind (lookup_type types (VMap kvs)) (\<lambda>t. Inr (t, []))"
  using assms by (simp add: type_of_spec_def)

lemma type_of_spec_absent:
  assumes "map_of kvs (KStr ''opts'') = None"
  shows "type_of_spec types (VMap kvs) = sbind (lookup_type types (VMap kvs)) (\<lambda>t. Inr (t, []))"
  using assms by (simp add: type_of_spec_def)

lemma type_of_spec_drop_opts:
  assumes "map_of kvs (KStr ''opts'') = Some opts" and "\<not> truthy opts"
  shows "type_of_spec types (VMap (AList.delete (KStr ''opts'') kvs)) = type_of_spec types (VMap kvs)"
  using assms
  by (simp add: type_of_spec_falsy type_of_spec_absent lookup_type_delete_opts AList.delete_conv')

lemma validator_of_spec_drop_opts:
  "validator_of_spec validators k (VMap (AList.delete (KStr ''opts'') kvs)) =
   validator_of_spec validators k (VMap kvs)"
  by (simp add: validator_of_spec_def)

lemma validator_of_spec_update_drop_opts:
  "validator_of_spec validators k (VMap (AList.update (KStr ''type'') x (AList.delete (KStr ''opts'') kvs))) =
   validator_of_spec validators k (VMap (AList.update (KStr ''type'') x kvs))"
  by (simp add: validator_of_spec_def AList.update_conv')

text \<open>
  C2, as the code has it.  For a rule whose \<open>type\<close> names a registered type and
  whose \<open>opts\<close> is truthy, \<^verbatim>\<open>_type\<close> dispatches on the shape of \<open>opts\<close>: a list gives
  the type parametrized by its items; a string, being a sequence as well, gives the
  type parametrized by its characters; a dictionary gives the type constructed with
  its items as keywords (a \<^verbatim>\<open>TypeError\<close> when a key is not a string); any other
  value is ignored with the warning, and the type is then the bare registered type,
  the one the rule without \<open>opts\<close> resolves to.
\<close>

theorem type_of_spec_dispatch:
  assumes "map_of kvs (KStr ''type'') = Some (VStr n)" and "n \<in> set types"
    and "map_of kvs (KStr ''opts'') = Some opts" and "truthy opts"
  shows "type_of_spec types (VMap kvs) =
     (case opts of
        VSeq xs \<Rightarrow> Inr (Parametrized (Registered n) xs, [])
      | VStr s \<Rightarrow> Inr (Parametrized (Registered n) (map (\<lambda>c. VStr [c]) s), [])
      | VMap kw \<Rightarrow> if str_keys kw then Inr (Constructed (Registered n) kw, []) else Inl TypeError
      | _ \<Rightarrow> Inr (Registered n, [AmbiguousOption opts]))
    \<and> type_of_spec types (VMap (AList.delete (KStr ''opts'') kvs)) = Inr (Registered n, [])"
  using assms
  by (cases opts) (simp_all add: type_of_spec_def lookup_type_def AList.delete_conv')

theorem type_of_spec_dispatch_witness:
  "type_of_spec [''int''] (VMap [(KStr ''type'', VStr ''int''), (KStr ''opts'', VSeq [VInt 1, VInt 2])])
     = Inr (Parametrized (Registered ''int'') [VInt 1, VInt 2], [])
   \<and> type_of_spec [''int''] (VMap [(KStr ''type'', VStr ''int''), (KStr ''opts'', VMap [(KStr ''x'', VInt 1)])])
     = Inr (Constructed (Registered ''int'') [(KStr ''x'', VInt 1)], [])
   \<and> type_of_spec [''int''] (VMap [(KStr ''type'', VStr ''int''), (KStr ''opts'', VInt 7)])
     = Inr (Registered ''int'', [AmbiguousOption (VInt 7)])
   \<and> type_of_spec [''int''] (VMap [(KStr ''type'', VStr ''int'')]) = Inr (Registered ''int'', [])"
  using type_of_spec_dispatch [of "[(KStr ''type'', VStr ''int''), (KStr ''opts'', VSeq [VInt 1, VInt 2])]"
      "''int''" "[''int'']" "VSeq [VInt 1, VInt 2]"]
    type_of_spec_dispatch [of "[(KStr ''type'', VStr ''int''), (KStr ''opts'', VMap [(KStr ''x'', VInt 1)])]"
      "''int''" "[''int'']" "VMap [(KStr ''x'', VInt 1)]"]
    type_of_spec_dispatch [of "[(KStr ''type'', VStr ''int''), (KStr ''opts'', VInt 7)]"
      "''int''" "[''int'']" "VInt 7"]
  by simp

text \<open>
  C2 as stated fails for the bare string: \<open>opts = "bad"\<close> is a sequence, so the type
  is parametrized by the three characters and no warning is issued; the rule without
  \<open>opts\<close> gives the bare type.
\<close>

theorem opts_string_counterexample:
  "type_of_spec [''int''] (VMap [(KStr ''type'', VStr ''int''), (KStr ''opts'', VStr ''bad'')])
     = Inr (Parametrized (Registered ''int'') [VStr ''b'', VStr ''a'', VStr ''d''], [])
   \<and> type_of_spec [''int''] (VMap [(KStr ''type'', VStr ''int'')]) = Inr (Registered ''int'', [])"
  by (simp add: type_of_spec_def lookup_type_def)

text \<open>
  C10.  When \<open>opts\<close> is present but falsy, \<^verbatim>\<open>_type\<close> returns the bare registered
  type without a warning (or the error of the lookup), which is what it returns for
  the rule without the \<open>opts\<close> key; and \<^verbatim>\<open>_str_to_spec\<close> on the rule without the key
  gives the result for the rule with it, less the key, with the same warnings.
\<close>

theorem falsy_opts_as_absent:
  assumes "map_of kvs (KStr ''opts'') = Some opts" and "\<not> truthy opts"
  shows "type_of_spec types (VMap kvs) = sbind (lookup_type types (VMap kvs)) (\<lambda>t. Inr (t, []))
    \<and> type_of_spec types (VMap kvs) = type_of_spec types (VMap (AList.delete (KStr ''opts'') kvs))
    \<and> str_to_spec types validators k (VMap (AList.delete (KStr ''opts'') kvs)) =
        sbind (str_to_spec types validators k (VMap kvs)) (\<lambda>(v, ws). Inr (drop_opts v, ws))"
proof -
  have t: "type_of_spec types (VMap (AList.delete (KStr ''opts'') kvs)) = type_of_spec types (VMap kvs)"
    using assms by (rule type_of_spec_drop_opts)
  have s: "str_to_spec types validators k (VMap (AList.delete (KStr ''opts'') kvs)) =
        sbind (str_to_spec types validators k (VMap kvs)) (\<lambda>(v, ws). Inr (drop_opts v, ws))"
    unfolding str_to_spec_def
    by (cases "type_of_spec types (VMap kvs)"; cases "validator_of_spec validators k (VMap kvs)")
      (auto simp: t validator_of_spec_drop_opts validator_of_spec_update_drop_opts
          AList.delete_update AList.update_conv' sbind_def
          split: prod.splits sum.splits)
  show ?thesis using assms t s by (simp add: type_of_spec_falsy)
qed

theorem falsy_opts_as_absent_witness:
  "type_of_spec [''int''] (VMap [(KStr ''type'', VStr ''int''), (KStr ''opts'', VSeq [])])
     = Inr (Registered ''int'', [])
   \<and> type_of_spec [''int''] (VMap [(KStr ''type'', VStr ''int''), (KStr ''opts'', VMap [])])
     = Inr (Registered ''int'', [])
   \<and> type_of_spec [''int''] (VMap [(KStr ''type'', VStr ''int''), (KStr ''opts'', VInt 0)])
     = Inr (Registered ''int'', [])
   \<and> type_of_spec [''int''] (VMap [(KStr ''type'', VStr ''int''), (KStr ''opts'', VBool False)])
     = type_of_spec [''int''] (VMap [(KStr ''type'', VStr ''int'')])
   \<and> str_to_spec [''int''] [] (KStr ''a'') (VMap [(KStr ''type'', VStr ''int''), (KStr ''opts'', VInt 0)])
     = Inr (VMap [(KStr ''type'', VType (Registered ''int'')), (KStr ''opts'', VInt 0)], [])"
  using falsy_opts_as_absent [of "[(KStr ''type'', VStr ''int''), (KStr ''opts'', VSeq [])]" "VSeq []" "[''int'']"]
    falsy_opts_as_absent [of "[(KStr ''type'', VStr ''int''), (KStr ''opts'', VMap [])]" "VMap []" "[''int'']"]
    falsy_opts_as_absent [of "[(KStr ''type'', VStr ''int''), (KStr ''opts'', VInt 0)]" "VInt 0" "[''int'']"]
    falsy_opts_as_absent [of "[(KStr ''type'', VStr ''int''), (KStr ''opts'', VBool False)]" "VBool False" "[''int'']"]
  by (simp add: lookup_type_def str_to_spec_def type_of_spec_def)

lemma kwargs_Inr: "kwargs ps = Inr kw \<Longrightarrow> ps = VMap kw"
  by (cases ps) (simp_all split: if_splits)



lemma effective_target_update_type [simp]:
  "effective_target k (AList.update (KStr ''type'') x kvs) = effective_target k kvs"
  by (simp add: effective_target_def AList.update_conv')




section \<open>Properties of the path classifier\<close>

lemma is_node_iff:
  "is_node p k v \<longleftrightarrow> k \<noteq> None \<and> (\<forall>t\<in>set type_spec. KStr t \<notin> set (child_path p k))"
  by (cases k) (simp_all add: list_all_iff)

lemma enters_nodes:
  "map (\<lambda>(p, k, v). child_path p k) (filter (\<lambda>(p, k, v). is_node p k v) (enters path key v)) =
     filter (\<lambda>p. \<forall>t\<in>set type_spec. KStr t \<notin> set p)
       ((if key = None then [] else [child_path path key])
         @ map ((@) (child_path path key)) (positions v))"
  "map (\<lambda>(p, k, v). child_path p k) (filter (\<lambda>(p, k, v). is_node p k v) (enters_items path kvs)) =
     filter (\<lambda>p. \<forall>t\<in>set type_spec. KStr t \<notin> set p) (map ((@) path) (positions_items kvs))"
  "map (\<lambda>(p, k, v). child_path p k) (filter (\<lambda>(p, k, v). is_node p k v) (enters_seq path i xs)) =
     filter (\<lambda>p. \<forall>t\<in>set type_spec. KStr t \<notin> set p) (map ((@) path) (positions_seq i xs))"
  by (induction path key v and path kvs and path i xs rule: enters_enters_items_enters_seq.induct)
    (simp_all add: is_node_iff comp_def)

lemma research_is_node:
  "map fst (research conf is_node) =
     filter (\<lambda>p. \<forall>t\<in>set type_spec. KStr t \<notin> set p) (positions conf)"
proof -
  have "map ((@) []) xs = xs" for xs :: "path list"
    by (induction xs) auto
  with enters_nodes(1)[of "[]" None conf] show ?thesis
    by (simp add: research_def comp_def case_prod_unfold)
qed

lemma positions_nonempty:
  "[] \<notin> set (positions v)" "[] \<notin> set (positions_items kvs)" "[] \<notin> set (positions_seq i xs)"
  by (induction v and kvs and i xs rule: positions_positions_items_positions_seq.induct) auto


text \<open>
  C5.  A place of the document is among \<^verbatim>\<open>_nodes(conf)\<close> if and only if none of the
  nine keys of \<^verbatim>\<open>_type_spec\<close> occurs in its path, the last key included; the entry
  with the key \<open>None\<close>, one level above the root, is rejected by \<^verbatim>\<open>_is_node\<close> and
  its path is never among the nodes.
\<close>

theorem nodes_iff:
  "(p \<in> set (nodes conf) \<longleftrightarrow> p \<in> set (positions conf) \<and> (\<forall>t\<in>set type_spec. KStr t \<notin> set p))
   \<and> [] \<notin> set (nodes conf)
   \<and> \<not> is_node path None v
   \<and> (is_node path (Some k) v \<longleftrightarrow> (\<forall>t\<in>set type_spec. KStr t \<notin> set (path @ [k])))"
  using positions_nonempty(1)[of conf]
  by (auto simp: nodes_def research_is_node list_all_iff)


theorem nodes_iff_witness:
  "[KStr ''a''] \<in> set (nodes (VMap [(KStr ''a'', VMap [(KStr ''type'', VStr ''int'')])]))
   \<and> [KStr ''a'', KStr ''type''] \<notin> set (nodes (VMap [(KStr ''a'', VMap [(KStr ''type'', VStr ''int'')])]))
   \<and> [KStr ''a'', KStr ''type''] \<in> set (positions (VMap [(KStr ''a'', VMap [(KStr ''type'', VStr ''int'')])]))
   \<and> is_node [KStr ''a''] (Some (KStr ''b'')) VNone"
  using nodes_iff [of "[KStr ''a'']" "VMap [(KStr ''a'', VMap [(KStr ''type'', VStr ''int'')])]"
      "[KStr ''a'']" VNone "KStr ''b''"]
    nodes_iff [of "[KStr ''a'', KStr ''type'']" "VMap [(KStr ''a'', VMap [(KStr ''type'', VStr ''int'')])]"
      "[KStr ''a'']" VNone "KStr ''b''"]
  by (simp add: type_spec_def)

section \<open>Properties of the type synthesizer\<close>

lemma int_of_str_names [simp]:
  "int_of_str ''type'' = None" "int_of_str ''default'' = None" "int_of_str ''validator'' = None"
  by code_simp+

lemma glom_get_name_Inr:
  assumes "glom_get v [name] = Inr t" and "int_of_str name = None"
  shows "\<exists>m. v = VMap m \<and> map_of m (KStr name) = Some t"
  using assms by (cases v) (auto split: option.splits)

lemma field_of_item_Inr:
  assumes "field_of_item kv = Inr f"
  shows "\<exists>m t. snd kv = VMap m \<and> map_of m (KStr ''type'') = Some t
     \<and> f = (fst kv, t, map_of m (KStr ''default''))"
proof -
  from assms obtain t where t: "glom_get (snd kv) [''type''] = Inr t"
    by (auto simp: field_of_item_def sbind_def split: sum.splits)
  from glom_get_name_Inr[OF t int_of_str_names(1)] obtain m where m: "snd kv = VMap m" "map_of m (KStr ''type'') = Some t"
    by auto
  with assms show ?thesis
    by (cases kv) (auto simp: field_of_item_def split: option.splits)
qed

lemma items_where_Inr:
  "items_where b kvs = Inr r \<Longrightarrow> r = filter (\<lambda>kv. contains ''default'' (snd kv) = Inr b) kvs"
proof (induction kvs arbitrary: r)
  case Nil
  then show ?case by simp
next
  case (Cons kv kvs)
  obtain k v where kv: "kv = (k, v)" by (cases kv)
  from Cons.prems obtain h r' where h: "contains ''default'' v = Inr h" and r': "items_where b kvs = Inr r'"
    and r: "r = (if h = b then (k, v) # r' else r')"
    unfolding kv by (auto simp: sbind_def split: sum.splits)
  from Cons.IH[OF r'] h r show ?case
    unfolding kv by auto
qed

lemma items_where_all:
  "items_where b kvs = Inr r \<Longrightarrow> \<forall>kv\<in>set kvs. \<exists>h. contains ''default'' (snd kv) = Inr h"
proof (induction kvs arbitrary: r)
  case Nil
  then show ?case by simp
next
  case (Cons kv kvs)
  obtain k v where kv: "kv = (k, v)" by (cases kv)
  from Cons.prems obtain h r' where h: "contains ''default'' v = Inr h" and r': "items_where b kvs = Inr r'"
    unfolding kv by (auto simp: sbind_def split: sum.splits)
  from Cons.IH[OF r'] h show ?case
    unfolding kv by auto
qed

lemma map_result_Inr:
  "map_result f xs = Inr ys \<Longrightarrow> list_all2 (\<lambda>x y. f x = Inr y) xs ys"
proof (induction xs arbitrary: ys)
  case Nil
  then show ?case by simp
next
  case (Cons x xs)
  then show ?case
    by (auto simp: sbind_def split: sum.splits)
qed

lemma map_result_mem:
  "map_result f xs = Inr ys \<Longrightarrow> x \<in> set xs \<Longrightarrow> \<exists>y. f x = Inr y"
proof (induction xs arbitrary: ys)
  case Nil
  then show ?case by simp
next
  case (Cons a xs)
  then show ?case
    by (auto simp: sbind_def split: sum.splits)
qed

lemma field_of_item_fst: "field_of_item kv = Inr f \<Longrightarrow> fst f = fst kv"
  by (auto simp: field_of_item_def sbind_def split: sum.splits)

lemma map_result_fields_fst:
  assumes "map_result field_of_item xs = Inr fs"
  shows "map fst fs = map fst xs"
proof -
  from map_result_Inr[OF assms] have "list_all2 (\<lambda>x y. fst y = fst x) xs fs"
    by (rule list_all2_mono) (simp add: field_of_item_fst)
  then show ?thesis
    by (induction rule: list_all2_induct) auto
qed

lemma spec_to_type_Inr:
  assumes "spec_to_type k v bs = Inr T"
  shows "\<exists>kvs fs ns. v = VMap kvs
     \<and> map_result field_of_item (filter (\<lambda>kv. \<not> has_default kv) kvs @ filter has_default kvs) = Inr fs
     \<and> T = Dataconfig (str_key k @ ''_t'') fs ns bs"
proof -
  from assms obtain kvs where v: "v = VMap kvs"
    by (cases v) (auto simp: spec_to_type_def)
  from assms obtain req dfl fs vs where req: "items_where False kvs = Inr req"
    and dfl: "items_where True kvs = Inr dfl"
    and fs: "map_result field_of_item (req @ dfl) = Inr fs"
    and T: "make_dataconfig (str_key k @ ''_t'') fs (dict_of (concat vs)) bs = Inr T"
    unfolding v by (auto simp: spec_to_type_def sbind_def split: sum.splits)
  from items_where_all[OF req]
  have "filter (\<lambda>kv. contains ''default'' (snd kv) = Inr False) kvs = filter (\<lambda>kv. \<not> has_default kv) kvs"
    by (intro filter_cong) (auto simp: has_default_def)
  with items_where_Inr[OF req] items_where_Inr[OF dfl] fs T v show ?thesis
    by (auto simp: has_default_def has_default_def[abs_def] make_dataconfig_def split: if_splits)
qed


lemma items_where_total:
  "list_all resolved_field kvs \<Longrightarrow>
   items_where b kvs = Inr (filter (\<lambda>kv. has_default kv = b) kvs)"
proof (induction kvs)
  case Nil
  then show ?case by simp
next
  case (Cons kv kvs)
  obtain k v where kv: "kv = (k, v)" by (cases kv)
  from Cons.prems obtain m where m: "v = VMap m"
    unfolding kv by (cases v) (auto simp: resolved_field_def)
  from Cons show ?case
    unfolding kv m by (auto simp: has_default_def)
qed

lemma field_of_item_total:
  "resolved_field kv \<Longrightarrow> \<exists>t d. field_of_item kv = Inr (fst kv, VType t, d)"
  by (cases "snd kv")
    (auto simp: resolved_field_def field_of_item_def split: option.splits val.splits)

lemma map_result_fields_total:
  "list_all resolved_field xs \<Longrightarrow>
   \<exists>fs. map_result field_of_item xs = Inr fs \<and> field_types fs"
proof (induction xs)
  case Nil
  then show ?case by simp
next
  case (Cons x xs)
  then obtain fs where fs: "map_result field_of_item xs = Inr fs" "field_types fs"
    by auto
  from Cons.prems field_of_item_total[of x] obtain t d where "field_of_item x = Inr (fst x, VType t, d)"
    by auto
  with fs show ?case by simp
qed

lemma validator_items_total:
  "resolved_field kv \<Longrightarrow> \<exists>ns. validator_items (snd kv) = Inr ns"
  by (cases "snd kv")
    (auto simp: resolved_field_def validator_items_def split: option.splits val.splits)

lemma map_result_validators_total:
  "list_all resolved_field xs \<Longrightarrow> \<exists>vs. map_result validator_items (map snd xs) = Inr vs"
proof (induction xs)
  case Nil
  then show ?case by simp
next
  case (Cons x xs)
  then obtain vs where "map_result validator_items (map snd xs) = Inr vs"
    by auto
  moreover from Cons.prems validator_items_total[of x] obtain ns where "validator_items (snd x) = Inr ns"
    by auto
  ultimately show ?case by simp
qed

lemma spec_to_type_total:
  assumes "list_all resolved_field kvs"
  shows "\<exists>fs ns. spec_to_type k (VMap kvs) bs = Inr (Dataconfig (str_key k @ ''_t'') fs ns bs)"
proof -
  have "list_all resolved_field (filter (\<lambda>kv. has_default kv = False) kvs @ filter (\<lambda>kv. has_default kv = True) kvs)"
    using assms by (auto simp: list_all_iff)
  from map_result_fields_total[OF this] obtain fs
    where fs: "map_result field_of_item (filter (\<lambda>kv. has_default kv = False) kvs @ filter (\<lambda>kv. has_default kv = True) kvs) = Inr fs"
      and ft: "field_types fs" by blast
  from map_result_validators_total[OF assms] obtain vs
    where vs: "map_result validator_items (map snd kvs) = Inr vs" by blast
  show ?thesis
    using fs ft vs
    by (simp add: spec_to_type_def items_where_total[OF assms] make_dataconfig_def)
qed

text \<open>
  C4.  When \<^verbatim>\<open>_spec_to_type\<close> returns a type for a field mapping, the names of its
  fields are those of the items without a default, in the order of the mapping,
  followed by those of the items with a default, in the order of the mapping; it
  returns a type whenever every item is a resolved child; and both
  \<open>{a: {type: T}, b: {type: U, default: d}}\<close> and
  \<open>{b: {type: U, default: d}, a: {type: T}}\<close> give the fields \<open>(a, b)\<close>.
\<close>

theorem fields_defaults_last:
  "(spec_to_type k v bs = Inr T \<longrightarrow>
      (\<exists>kvs. v = VMap kvs \<and>
         map fst (fields T) = map fst (filter (\<lambda>kv. \<not> has_default kv) kvs) @ map fst (filter has_default kvs)))
   \<and> (list_all resolved_field kvs \<longrightarrow> (\<exists>T. spec_to_type k (VMap kvs) bs = Inr T))
   \<and> spec_to_type k
        (VMap [(KStr ''a'', VMap [(KStr ''type'', VType t)]),
               (KStr ''b'', VMap [(KStr ''type'', VType u), (KStr ''default'', d)])]) bs
       = Inr (Dataconfig (str_key k @ ''_t'')
           [(KStr ''a'', VType t, None), (KStr ''b'', VType u, Some d)] [] bs)
   \<and> spec_to_type k
        (VMap [(KStr ''b'', VMap [(KStr ''type'', VType u), (KStr ''default'', d)]),
               (KStr ''a'', VMap [(KStr ''type'', VType t)])]) bs
       = Inr (Dataconfig (str_key k @ ''_t'')
           [(KStr ''a'', VType t, None), (KStr ''b'', VType u, Some d)] [] bs)"
proof (intro conjI impI)
  assume "spec_to_type k v bs = Inr T"
  from spec_to_type_Inr[OF this] obtain kvs fs ns where v: "v = VMap kvs"
    and fs: "map_result field_of_item (filter (\<lambda>kv. \<not> has_default kv) kvs @ filter has_default kvs) = Inr fs"
    and T: "T = Dataconfig (str_key k @ ''_t'') fs ns bs" by blast
  from map_result_fields_fst[OF fs] v T
  show "\<exists>kvs. v = VMap kvs \<and>
         map fst (fields T) = map fst (filter (\<lambda>kv. \<not> has_default kv) kvs) @ map fst (filter has_default kvs)"
    by simp
next
  assume "list_all resolved_field kvs"
  from spec_to_type_total[OF this] show "\<exists>T. spec_to_type k (VMap kvs) bs = Inr T"
    by blast
qed (simp_all add: spec_to_type_def field_of_item_def validator_items_def make_dataconfig_def dict_of_def)

theorem fields_defaults_last_witness:
  "spec_to_type (KStr ''n'')
      (VMap [(KStr ''p'', VMap [(KStr ''type'', VType (Registered ''int'')), (KStr ''default'', VInt 1)]),
             (KStr ''q'', VMap [(KStr ''type'', VType (Registered ''str''))]),
             (KStr ''r'', VMap [(KStr ''type'', VType (Registered ''int'')), (KStr ''default'', VInt 2)]),
             (KStr ''s'', VMap [(KStr ''type'', VType (Registered ''str''))])]) []
     = Inr (Dataconfig ''n_t''
         [(KStr ''q'', VType (Registered ''str''), None), (KStr ''s'', VType (Registered ''str''), None),
          (KStr ''p'', VType (Registered ''int''), Some (VInt 1)),
          (KStr ''r'', VType (Registered ''int''), Some (VInt 2))] [] [])
   \<and> list_all resolved_field
      [(KStr ''p'', VMap [(KStr ''type'', VType (Registered ''int'')), (KStr ''default'', VInt 1)]),
       (KStr ''q'', VMap [(KStr ''type'', VType (Registered ''str''))])]"
proof -
  let ?v = "VMap [(KStr ''p'', VMap [(KStr ''type'', VType (Registered ''int'')), (KStr ''default'', VInt 1)]),
             (KStr ''q'', VMap [(KStr ''type'', VType (Registered ''str''))]),
             (KStr ''r'', VMap [(KStr ''type'', VType (Registered ''int'')), (KStr ''default'', VInt 2)]),
             (KStr ''s'', VMap [(KStr ''type'', VType (Registered ''str''))])]"
  let ?T = "Dataconfig ''n_t''
         [(KStr ''q'', VType (Registered ''str''), None), (KStr ''s'', VType (Registered ''str''), None),
          (KStr ''p'', VType (Registered ''int''), Some (VInt 1)),
          (KStr ''r'', VType (Registered ''int''), Some (VInt 2))] [] []"
  have e: "spec_to_type (KStr ''n'') ?v [] = Inr ?T"
    by code_simp
  have r: "list_all resolved_field
      [(KStr ''p'', VMap [(KStr ''type'', VType (Registered ''int'')), (KStr ''default'', VInt 1)]),
       (KStr ''q'', VMap [(KStr ''type'', VType (Registered ''str''))])]"
    by (simp add: resolved_field_def)
  from fields_defaults_last [of "KStr ''n''" ?v "[]" ?T
      "[(KStr ''p'', VMap [(KStr ''type'', VType (Registered ''int'')), (KStr ''default'', VInt 1)]),
        (KStr ''q'', VMap [(KStr ''type'', VType (Registered ''str''))])]"] e r
  show ?thesis by simp
qed

section \<open>Properties of the branch interpreter\<close>

lemma spec_to_type_children:
  assumes "spec_to_type k (VMap kvs) bs = Inr T" and "map_of kvs name = Some c"
  shows "\<exists>m. c = VMap m"
proof -
  from assms(1) obtain req where req: "items_where False kvs = Inr req"
    and "\<exists>dfl fs. items_where True kvs = Inr dfl \<and> map_result field_of_item (req @ dfl) = Inr fs"
    by (auto simp: spec_to_type_def sbind_def split: sum.splits)
  then obtain dfl fs where dfl: "items_where True kvs = Inr dfl"
    and fs: "map_result field_of_item (req @ dfl) = Inr fs" by blast
  from assms(2) have mem: "(name, c) \<in> set kvs" by (rule map_of_SomeD)
  from items_where_all[OF req] mem obtain h where h: "contains ''default'' c = Inr h" by force
  from items_where_Inr[OF req] items_where_Inr[OF dfl] mem h
  have "(name, c) \<in> set (req @ dfl)" by (cases h) auto
  with map_result_mem[OF fs] obtain f where "field_of_item (name, c) = Inr f"
    by blast
  from field_of_item_Inr[OF this] show ?thesis
    by auto
qed

lemma str_to_spec_branch:
  assumes "spec_to_type k v bs = Inr T" and "str_to_spec types validators k v = Inr (v', ws)"
  shows "v' = v \<and> ws = []"
proof -
  from assms(1) obtain kvs where v: "v = VMap kvs"
    by (cases v) (auto simp: spec_to_type_def)
  have ty: "map_of kvs (KStr ''type'') = None"
  proof (rule ccontr)
    assume "map_of kvs (KStr ''type'') \<noteq> None"
    then obtain c where c: "map_of kvs (KStr ''type'') = Some c" by auto
    from spec_to_type_children[OF assms(1)[unfolded v] c] obtain m where "c = VMap m" by blast
    with c have "lookup_type types (VMap kvs) = Inl TypeError"
      by (simp add: lookup_type_def)
    then have "\<exists>e. type_of_spec types (VMap kvs) = Inl e"
      by (auto simp: type_of_spec_def sbind_def split: sum.splits option.splits)
    with assms(2) c show False
      unfolding v by (auto simp: str_to_spec_def)
  qed
  have va: "map_of kvs (KStr ''validator'') = None"
  proof (rule ccontr)
    assume "map_of kvs (KStr ''validator'') \<noteq> None"
    then obtain c where c: "map_of kvs (KStr ''validator'') = Some c" by auto
    from spec_to_type_children[OF assms(1)[unfolded v] c] obtain m where "c = VMap m" by blast
    with c have "validator_of_spec validators k (VMap kvs) = Inl TypeError"
      by (simp add: validator_of_spec_def)
    with assms(2) c ty show False
      unfolding v by (auto simp: str_to_spec_def)
  qed
  from assms(2) ty va show ?thesis
    unfolding v by (simp add: str_to_spec_def)
qed

text \<open>
  C3, as the code has it.  Whenever \<^verbatim>\<open>_nested_type\<close> returns, the result is a
  dictionary with the two keys \<open>type\<close> and \<open>validator\<close>, in this order; \<open>type\<close> is the
  type \<^verbatim>\<open>_spec_to_type\<close> makes of the children, without bases; and \<open>validator\<close> is
  the mapping of the children itself, unchanged: it is never a validator made by
  \<^verbatim>\<open>_validator\<close>, and no warning is issued.
\<close>

theorem nested_type_result:
  "nested_type types validators k v = Inr (r, ws) \<longrightarrow>
     (\<exists>t. spec_to_type k v [] = Inr t \<and> bases t = []
        \<and> r = VMap [(KStr ''type'', VType t), (KStr ''validator'', v)] \<and> ws = [])"
proof
  assume n: "nested_type types validators k v = Inr (r, ws)"
  then obtain t where t: "spec_to_type k v [] = Inr t"
    by (auto simp: nested_type_def sbind_def split: sum.splits)
  with n obtain v' where s: "str_to_spec types validators k v = Inr (v', ws)"
    and r: "r = VMap [(KStr ''type'', VType t), (KStr ''validator'', v')]"
    by (auto simp: nested_type_def sbind_def split: sum.splits)
  from spec_to_type_Inr[OF t] have "bases t = []" by auto
  with str_to_spec_branch[OF t s] t r
  show "\<exists>t. spec_to_type k v [] = Inr t \<and> bases t = []
        \<and> r = VMap [(KStr ''type'', VType t), (KStr ''validator'', v)] \<and> ws = []"
    by simp
qed

theorem nested_type_result_witness:
  "nested_type [''int''] [''chk''] (KStr ''b'')
      (VMap [(KStr ''x'', VMap [(KStr ''type'', VType (Registered ''int'')),
         (KStr ''validator'', VMap [(KStr ''chk'', VValidator (KStr ''x'') ''chk'' (VMap []) [])])])])
     = Inr (VMap [(KStr ''type'', VType (Dataconfig ''b_t'' [(KStr ''x'', VType (Registered ''int''), None)]
                     [(KStr ''chk'', VValidator (KStr ''x'') ''chk'' (VMap []) [])] [])),
                  (KStr ''validator'', VMap [(KStr ''x'', VMap [(KStr ''type'', VType (Registered ''int'')),
                     (KStr ''validator'', VMap [(KStr ''chk'', VValidator (KStr ''x'') ''chk'' (VMap []) [])])])])], [])
   \<and> nested_type [''int''] [''chk''] (KStr ''b'')
      (VMap [(KStr ''validator'', VStr ''chk''), (KStr ''x'', VMap [(KStr ''type'', VType (Registered ''int''))])])
     = Inl PathAccessError"
proof -
  let ?v = "VMap [(KStr ''x'', VMap [(KStr ''type'', VType (Registered ''int'')),
         (KStr ''validator'', VMap [(KStr ''chk'', VValidator (KStr ''x'') ''chk'' (VMap []) [])])])]"
  let ?r = "VMap [(KStr ''type'', VType (Dataconfig ''b_t'' [(KStr ''x'', VType (Registered ''int''), None)]
                     [(KStr ''chk'', VValidator (KStr ''x'') ''chk'' (VMap []) [])] [])),
                  (KStr ''validator'', ?v)]"
  have e: "nested_type [''int''] [''chk''] (KStr ''b'') ?v = Inr (?r, [])"
    by code_simp
  have f: "nested_type [''int''] [''chk''] (KStr ''b'')
      (VMap [(KStr ''validator'', VStr ''chk''), (KStr ''x'', VMap [(KStr ''type'', VType (Registered ''int''))])])
     = Inl PathAccessError"
    by code_simp
  from nested_type_result [of "[''int'']" "[''chk'']" "KStr ''b''" ?v ?r "[]"] e f
  show ?thesis by simp
qed

section \<open>The bases of the types\<close>

text \<open>
  Every step of \<^verbatim>\<open>get_config_t\<close> keeps the working copy free of composite types with
  a base: reading and assigning along a glom path, the leaf interpreter, the type
  synthesizer called with no base, the branch interpreter, the folds and the loop.
\<close>

lemma unbased_list_iff: "unbased_list xs \<longleftrightarrow> (\<forall>x\<in>set xs. unbased x)"
  by (induction xs) auto

lemma unbased_items_iff: "unbased_items kvs \<longleftrightarrow> (\<forall>kv\<in>set kvs. unbased (snd kv))"
  by (induction kvs) auto

lemma unbased_map_of: "unbased_items kvs \<Longrightarrow> map_of kvs k = Some v \<Longrightarrow> unbased v"
  by (induction kvs) (auto split: if_splits)

lemma unbased_update: "unbased_items kvs \<Longrightarrow> unbased v \<Longrightarrow> unbased_items (AList.update k v kvs)"
  by (induction kvs) auto

lemma unbased_nth: "unbased_list xs \<Longrightarrow> j < length xs \<Longrightarrow> unbased (xs ! j)"
  by (simp add: unbased_list_iff)

lemma unbased_list_update: "unbased_list xs \<Longrightarrow> unbased v \<Longrightarrow> unbased_list (xs[j := v])"
  by (auto simp: unbased_list_iff dest: set_update_subset_insert[THEN subsetD])

lemma unbased_tuple: "unbased v \<Longrightarrow> unbased_list (tuple v)"
  by (cases v) (auto simp: unbased_list_iff)

lemma unbased_type_of_spec:
  assumes "type_of_spec types v = Inr (t, ws)" and "unbased v"
  shows "unbased_type t"
proof -
  from assms(1) obtain kvs where v: "v = VMap kvs"
    by (cases v) (auto simp: type_of_spec_def)
  let ?opts = "case map_of kvs (KStr ''opts'') of None \<Rightarrow> VNone | Some x \<Rightarrow> x"
  have o: "unbased ?opts"
    using assms(2) v by (auto split: option.splits dest: unbased_map_of)
  from assms(1) v o unbased_tuple[OF o] show ?thesis
    by (cases ?opts)
      (auto simp: type_of_spec_def lookup_type_def sbind_def split: sum.splits if_splits)
qed

lemma unbased_validator_of_spec:
  assumes "validator_of_spec validators k v = Inr m" and "unbased v"
  shows "unbased m"
proof -
  from assms(1) obtain kvs where v: "v = VMap kvs"
    by (cases v) (auto simp: validator_of_spec_def)
  have o: "unbased (case map_of kvs (KStr ''validator_opts'') of None \<Rightarrow> VMap [] | Some x \<Rightarrow> x)"
    and p: "unbased (case map_of kvs (KStr ''validator_params'') of None \<Rightarrow> VMap [] | Some x \<Rightarrow> x)"
    using assms(2) v by (auto split: option.splits dest: unbased_map_of)
  from assms(1) v o p show ?thesis
    by (auto simp: validator_of_spec_def make_validator_def sbind_def
        split: sum.splits if_splits dest!: kwargs_Inr)
qed

lemma unbased_str_to_spec:
  assumes "str_to_spec types validators k v = Inr (v', ws)" and "unbased v"
  shows "unbased v'"
proof -
  obtain v1 ws1 where one: "(if contains ''type'' v = Inr True
        then sbind (type_of_spec types v) (\<lambda>(t, ws). sbind (set_item v ''type'' (VType t)) (\<lambda>value'. Inr (value', ws)))
        else Inr (v, [])) = Inr (v1, ws1)"
    and two: "(if contains ''validator'' v1 = Inr True
        then sbind (validator_of_spec validators k v1) (\<lambda>m. sbind (set_item v1 ''validator'' m) (\<lambda>value2. Inr (value2, ws1)))
        else Inr (v1, ws1)) = Inr (v', ws)"
    using assms(1)
    by (auto simp: str_to_spec_def sbind_def split: sum.splits if_splits prod.splits)
  have u1: "unbased v1"
  proof (cases "contains ''type'' v = Inr True")
    case True
    with one obtain t where t: "type_of_spec types v = Inr (t, ws1)" and s: "set_item v ''type'' (VType t) = Inr v1"
      by (auto simp: sbind_def split: sum.splits prod.splits)
    from unbased_type_of_spec[OF t assms(2)] s assms(2) show ?thesis
      by (cases v) (auto simp: unbased_update)
  next
    case False
    with one assms(2) show ?thesis by simp
  qed
  show ?thesis
  proof (cases "contains ''validator'' v1 = Inr True")
    case True
    with two obtain m where m: "validator_of_spec validators k v1 = Inr m" and s: "set_item v1 ''validator'' m = Inr v'"
      by (auto simp: sbind_def split: sum.splits prod.splits)
    from unbased_validator_of_spec[OF m u1] s u1 show ?thesis
      by (cases v1) (auto simp: unbased_update)
  next
    case False
    with two u1 show ?thesis by simp
  qed
qed


lemma seq_index_less: "seq_index xs i = Some j \<Longrightarrow> j < length xs"
  by (auto simp: seq_index_def Let_def split: if_splits)

lemma unbased_glom_get1: "glom_get1 c seg = Inr r \<Longrightarrow> unbased c \<Longrightarrow> unbased r"
  by (cases c) (auto split: option.splits dest: unbased_map_of simp: unbased_nth seq_index_less)

lemma unbased_glom_get: "glom_get c segs = Inr r \<Longrightarrow> unbased c \<Longrightarrow> unbased r"
proof (induction segs arbitrary: c)
  case Nil
  then show ?case by simp
next
  case (Cons seg segs)
  then show ?case
    by (auto simp: sbind_def split: sum.splits dest: unbased_glom_get1)
qed

lemma unbased_glom_set1: "glom_set1 c seg x = Inr c' \<Longrightarrow> unbased c \<Longrightarrow> unbased x \<Longrightarrow> unbased c'"
  by (cases c) (auto split: option.splits simp: unbased_update unbased_list_update)

lemma unbased_glom_assign:
  "glom_assign c segs x = Inr c' \<Longrightarrow> unbased c \<Longrightarrow> unbased x \<Longrightarrow> unbased c'"
proof (induction c segs x arbitrary: c' rule: glom_assign.induct)
  case (1 v x)
  then show ?case by simp
next
  case (2 v seg x)
  then show ?case by (auto dest: unbased_glom_set1)
next
  case (3 v seg s segs x)
  from "3.prems"(1) obtain ch ch' where ch: "glom_get1 v seg = Inr ch"
    and a: "glom_assign ch (s # segs) x = Inr ch'" and st: "glom_set1 v seg ch' = Inr c'"
    by (auto simp: sbind_def split: sum.splits)
  from unbased_glom_get1[OF ch "3.prems"(2)] "3.IH"[OF a _ "3.prems"(3)]
  have "unbased ch'" by simp
  from unbased_glom_set1[OF st "3.prems"(2) this] show ?case .
qed

lemma unbased_field_of_item:
  assumes "field_of_item kv = Inr f" and "unbased (snd kv)"
  shows "unbased_fields [f]"
proof -
  from field_of_item_Inr[OF assms(1)] obtain m t where m: "snd kv = VMap m"
    and t: "map_of m (KStr ''type'') = Some t" and f: "f = (fst kv, t, map_of m (KStr ''default''))"
    by blast
  from assms(2) m t have "unbased t" by (auto dest: unbased_map_of)
  with assms(2) m f show ?thesis
    by (cases "map_of m (KStr ''default'')") (auto dest: unbased_map_of)
qed

lemma unbased_fields_Cons: "unbased_fields (f # fs) \<longleftrightarrow> unbased_fields [f] \<and> unbased_fields fs"
proof -
  obtain k v d where f: "f = (k, v, d)" by (cases f)
  show ?thesis unfolding f by (cases d) auto
qed

lemma unbased_fields_append: "unbased_fields (fs @ gs) \<longleftrightarrow> unbased_fields fs \<and> unbased_fields gs"
proof (induction fs)
  case Nil
  then show ?case by simp
next
  case (Cons f fs)
  then show ?case using unbased_fields_Cons[of f "fs @ gs"] unbased_fields_Cons[of f fs] by simp
qed

lemma unbased_map_fields:
  "map_result field_of_item kvs = Inr fs \<Longrightarrow> unbased_items kvs \<Longrightarrow> unbased_fields fs"
proof (induction kvs arbitrary: fs)
  case Nil
  then show ?case by simp
next
  case (Cons kv kvs)
  from Cons.prems(1) obtain f fs' where f: "field_of_item kv = Inr f"
    and r: "map_result field_of_item kvs = Inr fs'" and fs: "fs = f # fs'"
    by (auto simp: sbind_def split: sum.splits)
  from Cons.prems(2) have u: "unbased (snd kv)" "unbased_items kvs"
    by (cases kv, simp)+
  from unbased_field_of_item[OF f u(1)] Cons.IH[OF r u(2)] show ?case
    unfolding fs using unbased_fields_Cons[of f fs'] by simp
qed

lemma unbased_items_where:
  "items_where b kvs = Inr r \<Longrightarrow> unbased_items kvs \<Longrightarrow> unbased_items r"
proof (induction kvs arbitrary: r)
  case Nil
  then show ?case by simp
next
  case (Cons kv kvs)
  obtain k v where kv: "kv = (k, v)" by (cases kv)
  from Cons.prems(1) obtain has rest where "items_where b kvs = Inr rest"
    and r: "r = (if has = b then (k, v) # rest else rest)"
    by (auto simp: kv sbind_def split: sum.splits)
  with Cons.IH[of rest] Cons.prems(2) show ?case
    by (auto simp: kv)
qed

lemma unbased_items_append:
  "unbased_items (xs @ ys) \<longleftrightarrow> unbased_items xs \<and> unbased_items ys"
  by (induction xs) auto

lemma unbased_validator_items:
  "validator_items v = Inr kvs \<Longrightarrow> unbased v \<Longrightarrow> unbased_items kvs"
proof -
  assume a: "validator_items v = Inr kvs" and u: "unbased v"
  show ?thesis
  proof (cases "glom_get v [''validator'']")
    case (Inl e)
    with a show ?thesis by (simp add: validator_items_def)
  next
    case (Inr m)
    from unbased_glom_get[OF Inr u] a Inr show ?thesis
      by (cases m) (auto simp: validator_items_def)
  qed
qed

lemma unbased_map_validators:
  "map_result validator_items vs = Inr r \<Longrightarrow> unbased_list vs \<Longrightarrow> unbased_items (concat r)"
proof (induction vs arbitrary: r)
  case Nil
  then show ?case by simp
next
  case (Cons v vs)
  from Cons.prems(1) obtain x xs where x: "validator_items v = Inr x"
    and r: "map_result validator_items vs = Inr xs" and rr: "r = x # xs"
    by (auto simp: sbind_def split: sum.splits)
  from Cons.prems(2) unbased_validator_items[OF x] Cons.IH[OF r] show ?case
    by (simp add: rr unbased_items_append)
qed

lemma unbased_foldl_update:
  "unbased_items d \<Longrightarrow> unbased_items kvs \<Longrightarrow>
   unbased_items (foldl (\<lambda>d (k, v). AList.update k v d) d kvs)"
  by (induction kvs arbitrary: d) (auto simp: unbased_update)

lemma unbased_dict_of: "unbased_items kvs \<Longrightarrow> unbased_items (dict_of kvs)"
  by (simp add: dict_of_def unbased_foldl_update)

lemma unbased_map_snd: "unbased_items kvs \<Longrightarrow> unbased_list (map snd kvs)"
  by (induction kvs) auto

lemma unbased_spec_to_type:
  assumes "spec_to_type k value bs = Inr t" and "unbased value"
  shows "\<exists>fs ns. t = Dataconfig (str_key k @ ''_t'') fs ns bs \<and> unbased_fields fs \<and> unbased_items ns"
proof -
  from assms(1) obtain items required defaulted fs vs where
    i: "dict_items value = Inr items" and
    r: "items_where False items = Inr required" and
    d: "items_where True items = Inr defaulted" and
    f: "map_result field_of_item (required @ defaulted) = Inr fs" and
    v: "map_result validator_items (map snd items) = Inr vs" and
    m: "make_dataconfig (str_key k @ ''_t'') fs (dict_of (concat vs)) bs = Inr t"
    by (auto simp: spec_to_type_def sbind_def split: sum.splits)
  from i assms(2) have u: "unbased_items items"
    by (cases "value") auto
  from unbased_items_where[OF r u] unbased_items_where[OF d u]
  have "unbased_items (required @ defaulted)"
    by (simp add: unbased_items_append)
  from unbased_map_fields[OF f this] have uf: "unbased_fields fs" .
  from unbased_map_validators[OF v unbased_map_snd[OF u]] have "unbased_items (dict_of (concat vs))"
    by (rule unbased_dict_of)
  with uf m show ?thesis
    by (auto simp: make_dataconfig_def split: if_splits)
qed

lemma unbased_nested_type:
  assumes "nested_type types validators k value = Inr (v, ws)" and "unbased value"
  shows "unbased v"
proof -
  from assms(1) obtain t v' where t: "spec_to_type k value [] = Inr t"
    and s: "str_to_spec types validators k value = Inr (v', ws)"
    and v: "v = VMap [(KStr ''type'', VType t), (KStr ''validator'', v')]"
    by (auto simp: nested_type_def sbind_def split: sum.splits prod.splits)
  from unbased_spec_to_type[OF t assms(2)] unbased_str_to_spec[OF s assms(2)] show ?thesis
    by (auto simp: v)
qed

lemma unbased_update_inplace:
  assumes f: "\<And>k v v' ws. func k v = Inr (v', ws) \<Longrightarrow> unbased v \<Longrightarrow> unbased v'"
    and "update_inplace func st p = Inr st'" and "unbased (fst st)"
  shows "unbased (fst st')"
proof -
  from assms(2) obtain v v' ws c' where g: "glom_get (fst st) (split_dots (path_to_glom_spec p)) = Inr v"
    and fn: "func (last p) v = Inr (v', ws)"
    and a: "glom_assign (fst st) (split_dots (path_to_glom_spec p)) v' = Inr c'"
    and st': "st' = (c', snd st @ ws)"
    by (auto simp: update_inplace_def Let_def sbind_def split: if_splits sum.splits prod.splits)
  from f[OF fn unbased_glom_get[OF g assms(3)]] have "unbased v'" .
  from unbased_glom_assign[OF a assms(3) this] show ?thesis
    by (simp add: st')
qed

lemma unbased_reduce:
  assumes f: "\<And>k v v' ws. func k v = Inr (v', ws) \<Longrightarrow> unbased v \<Longrightarrow> unbased v'"
  shows "reduce (update_inplace func) ps st = Inr st' \<Longrightarrow> unbased (fst st) \<Longrightarrow> unbased (fst st')"
proof (induction ps arbitrary: st)
  case Nil
  then show ?case by simp
next
  case (Cons p ps)
  from Cons.prems(1) obtain st1 where s1: "update_inplace func st p = Inr st1"
    and r: "reduce (update_inplace func) ps st1 = Inr st'"
    by (auto simp: sbind_def split: sum.splits)
  from unbased_update_inplace[of func, OF f s1 Cons.prems(2)] have "unbased (fst st1)" .
  from Cons.IH[OF r this] show ?case .
qed

lemma unbased_walk_up:
  "walk_up order types validators st branches = Inr st' \<Longrightarrow> unbased (fst st) \<Longrightarrow> unbased (fst st')"
proof (induction order types validators st branches rule: walk_up.induct)
  case (1 order types validators st branches)
  show ?case
  proof (cases "branches = []")
    case True
    with "1.prems" show ?thesis by (simp add: walk_up.simps)
  next
    case False
    with "1.prems"(1) obtain st1 where
      r: "reduce (update_inplace (nested_type types validators)) (order branches) st = Inr st1"
      and w: "walk_up order types validators st1 (parents branches) = Inr st'"
      by (subst (asm) walk_up.simps) (auto simp: sbind_def split: sum.splits)
    from unbased_reduce[where func = "nested_type types validators", OF unbased_nested_type r "1.prems"(2)]
    have "unbased (fst st1)" .
    from "1.IH"[OF False r w this] show ?thesis .
  qed
qed

lemma unbased_get_config_t:
  assumes "get_config_t order types validators conf = Inr (t, ws)" and "unbased conf"
  shows "\<exists>fs ns. t = Dataconfig ''config_t'' fs ns [ConfigIO] \<and> unbased_fields fs \<and> unbased_items ns"
proof -
  from assms(1) obtain st conf' where
    r: "reduce (update_inplace (str_to_spec types validators)) (order (leaves (nodes conf))) (conf, []) = Inr st"
    and w: "walk_up order types validators st (leaves (set_minus (nodes conf) (leaves (nodes conf)))) = Inr (conf', ws)"
    and s: "spec_to_type (KStr ''config'') conf' [ConfigIO] = Inr t"
    by (auto simp: get_config_t_def Let_def sbind_def split: sum.splits prod.splits)
  from unbased_reduce[where func = "str_to_spec types validators", OF unbased_str_to_spec r] assms(2)
  have "unbased (fst st)" by simp
  from unbased_walk_up[OF w this] have "unbased conf'" by simp
  from unbased_spec_to_type[OF s this] show ?thesis by simp
qed

text \<open>
  C7.  The type \<^verbatim>\<open>get_config_t\<close> returns for the document is made with the one base
  \<^verbatim>\<open>_ConfigIO\<close>, and the type \<^verbatim>\<open>_nested_type\<close> puts under \<open>type\<close> for a branch is
  made with no base.  Only the root has the base: when no type in the document
  given has a base (a document read from YAML or JSON holds no type at all), no
  type inside the fields and the namespace of the root type has one.
\<close>

theorem root_type_bases:
  "(get_config_t order types validators conf = Inr (t, ws) \<longrightarrow>
      (\<exists>fs ns. t = Dataconfig ''config_t'' fs ns [ConfigIO]
         \<and> (unbased conf \<longrightarrow> unbased_fields fs \<and> unbased_items ns)))
   \<and> (nested_type types validators k v = Inr (r, ws') \<longrightarrow>
      (\<exists>fs ns. subscript r ''type'' = Inr (VType (Dataconfig (str_key k @ ''_t'') fs ns []))))"
proof (intro conjI impI)
  assume g: "get_config_t order types validators conf = Inr (t, ws)"
  then obtain c where "spec_to_type (KStr ''config'') c [ConfigIO] = Inr t"
    by (auto simp: get_config_t_def Let_def sbind_def split: sum.splits prod.splits)
  from spec_to_type_Inr[OF this] obtain fs ns where t: "t = Dataconfig ''config_t'' fs ns [ConfigIO]"
    by auto
  have "unbased_fields fs \<and> unbased_items ns" if "unbased conf"
    using unbased_get_config_t[OF g that] t by simp
  with t show "\<exists>fs ns. t = Dataconfig ''config_t'' fs ns [ConfigIO]
         \<and> (unbased conf \<longrightarrow> unbased_fields fs \<and> unbased_items ns)"
    by blast
next
  assume n: "nested_type types validators k v = Inr (r, ws')"
  then obtain t where t: "spec_to_type k v [] = Inr t"
    and r: "subscript r ''type'' = Inr (VType t)"
    by (auto simp: nested_type_def sbind_def split: sum.splits)
  from spec_to_type_Inr[OF t] r
  show "\<exists>fs ns. subscript r ''type'' = Inr (VType (Dataconfig (str_key k @ ''_t'') fs ns []))"
    by auto
qed

theorem root_type_bases_witness:
  "get_config_t id [''int''] []
     (VMap [(KStr ''a'', VMap [(KStr ''b'', VMap [(KStr ''x'', VMap [(KStr ''type'', VStr ''int'')])])])])
   = Inr (Dataconfig ''config_t''
       [(KStr ''a'', VType (Dataconfig ''a_t''
            [(KStr ''b'', VType (Dataconfig ''b_t'' [(KStr ''x'', VType (Registered ''int''), None)] [] []), None)]
            [(KStr ''x'', VMap [(KStr ''type'', VType (Registered ''int''))])] []), None)]
       [(KStr ''b'', VMap [(KStr ''type'', VType (Dataconfig ''b_t'' [(KStr ''x'', VType (Registered ''int''), None)] [] [])),
           (KStr ''validator'', VMap [(KStr ''x'', VMap [(KStr ''type'', VType (Registered ''int''))])])])]
       [ConfigIO], [])
   \<and> unbased (VMap [(KStr ''a'', VMap [(KStr ''b'', VMap [(KStr ''x'', VMap [(KStr ''type'', VStr ''int'')])])])])
   \<and> unbased_fields [(KStr ''a'', VType (Dataconfig ''a_t''
            [(KStr ''b'', VType (Dataconfig ''b_t'' [(KStr ''x'', VType (Registered ''int''), None)] [] []), None)]
            [(KStr ''x'', VMap [(KStr ''type'', VType (Registered ''int''))])] []), None)]
   \<and> unbased_items [(KStr ''b'', VMap [(KStr ''type'', VType (Dataconfig ''b_t'' [(KStr ''x'', VType (Registered ''int''), None)] [] [])),
           (KStr ''validator'', VMap [(KStr ''x'', VMap [(KStr ''type'', VType (Registered ''int''))])])])]
   \<and> nested_type [''int''] [] (KStr ''b'') (VMap [(KStr ''x'', VMap [(KStr ''type'', VType (Registered ''int''))])])
   = Inr (VMap [(KStr ''type'', VType (Dataconfig ''b_t'' [(KStr ''x'', VType (Registered ''int''), None)] [] [])),
                (KStr ''validator'', VMap [(KStr ''x'', VMap [(KStr ''type'', VType (Registered ''int''))])])], [])"
proof -
  let ?conf = "VMap [(KStr ''a'', VMap [(KStr ''b'', VMap [(KStr ''x'', VMap [(KStr ''type'', VStr ''int'')])])])]"
  let ?b = "Dataconfig ''b_t'' [(KStr ''x'', VType (Registered ''int''), None)] [] []"
  let ?x = "VMap [(KStr ''x'', VMap [(KStr ''type'', VType (Registered ''int''))])]"
  let ?fs = "[(KStr ''a'', VType (Dataconfig ''a_t'' [(KStr ''b'', VType ?b, None)] [(KStr ''x'', VMap [(KStr ''type'', VType (Registered ''int''))])] []), None)]"
  let ?ns = "[(KStr ''b'', VMap [(KStr ''type'', VType ?b), (KStr ''validator'', ?x)])]"
  let ?t = "Dataconfig ''config_t'' ?fs ?ns [ConfigIO]"
  let ?r = "VMap [(KStr ''type'', VType ?b), (KStr ''validator'', ?x)]"
  have e: "get_config_t id [''int''] [] ?conf = Inr (?t, [])"
    by code_simp
  have n: "nested_type [''int''] [] (KStr ''b'') ?x = Inr (?r, [])"
    by code_simp
  have u: "unbased ?conf"
    by simp
  from root_type_bases [of id "[''int'']" "[]" ?conf ?t "[]" "KStr ''b''" ?x ?r "[]"] e u
  have "unbased_fields ?fs \<and> unbased_items ?ns"
    by simp
  with e n u show ?thesis by simp
qed

section \<open>Properties of the fold driver\<close>













text \<open>
  C1 at the document \<open>{a: {b: {c: {x: {type: int}}}, d: {y: {type: int}}}}\<close>: the
  second round holds both \<open>(a, b)\<close> and its parent \<open>(a)\<close>, whereas the leaves of the
  branches left are \<open>(a, b)\<close> alone; \<^verbatim>\<open>get_config_t\<close> then fails in whichever order
  the round is gone through (\<open>(a)\<close> before its child is resolved, or \<open>(a)\<close> a second
  time in the third round).
\<close>

theorem uneven_document_fails:
  "get_config_t id [''int''] []
      (VMap [(KStr ''a'', VMap [(KStr ''b'', VMap [(KStr ''c'', VMap [(KStr ''x'', VMap [(KStr ''type'', VStr ''int'')])])]),
                                (KStr ''d'', VMap [(KStr ''y'', VMap [(KStr ''type'', VStr ''int'')])])])])
     = Inl TypeError
   \<and> get_config_t rev [''int''] []
      (VMap [(KStr ''a'', VMap [(KStr ''b'', VMap [(KStr ''c'', VMap [(KStr ''x'', VMap [(KStr ''type'', VStr ''int'')])])]),
                                (KStr ''d'', VMap [(KStr ''y'', VMap [(KStr ''type'', VStr ''int'')])])])])
     = Inl PathAccessError
   \<and> parents [[KStr ''a'', KStr ''b'', KStr ''c''], [KStr ''a'', KStr ''d'']] = [[KStr ''a'', KStr ''b''], [KStr ''a'']]
   \<and> leaves [[KStr ''a'', KStr ''b''], [KStr ''a'']] = [[KStr ''a'', KStr ''b'']]"
  by code_simp

section \<open>Unknown names\<close>

subsection \<open>Keys as segments\<close>









lemma split_dots_nonempty: "split_dots s \<noteq> []"
  by (induction s) (auto split: list.splits)




subsection \<open>glom on plain paths\<close>














subsection \<open>A rule that names an unknown type or validator\<close>







subsection \<open>The fold over the leaves\<close>








end
